theory Spec2Isabelle
  imports Complex_Main "HOL-Library.Word" "HOL-Library.Log_Nat"
begin

section \<open>JavaScript numbers\<close>

text \<open>
  A JavaScript Number is an IEEE 754 binary64 value. A finite double is represented by
  the rational it denotes, and every arithmetic result is rounded to the nearest double,
  ties to even, as the machine does. Reading a typed array out of range gives
  \<open>undefined\<close>, which arithmetic turns into NaN. Overflow to Infinity and the sign
  of zero are outside the model: the detector adds byte means (at most 255 each), one
  per pixel of a canvas, and divides by 3 and by a positive pixel count only.
\<close>

text \<open>Rounding to the nearest integer, ties to the even one.\<close>

definition round_half_even :: "rat \<Rightarrow> int" where
  "round_half_even r =
     (let f = \<lfloor>r\<rfloor>; d = r - of_int f
      in if d < 1 / 2 then f else if 1 / 2 < d then f + 1 else if even f then f else f + 1)"

text \<open>
  The exponent \<open>e\<close> of the binade of \<open>x\<close>, with \<open>2 powi e \<le> |x| < 2 powi (e + 1)\<close>, and
  \<open>-1022\<close> for zero and throughout the subnormal range. For \<open>|x| = p / q\<close> it is found
  from the bit lengths of \<open>p\<close> and \<open>q\<close>.
\<close>

definition binade :: "rat \<Rightarrow> int" where
  "binade x =
     (if x = 0 then - 1022
      else (let (p, q) = quotient_of \<bar>x\<bar>;
                k = bitlen p - bitlen q;
                e = (if \<bar>x\<bar> < 2 powi k then k - 1 else k)
            in max e (- 1022)))"

text \<open>
  A double has 53 significant bits: its neighbours in the binade \<open>e\<close> are
  \<open>2 powi (e - 52)\<close> apart.
\<close>

definition to_double :: "rat \<Rightarrow> rat" where
  "to_double x =
     (let ulp = 2 powi (binade x - 52)
      in of_int (round_half_even (x / ulp)) * ulp)"

datatype jsnum = NaN | Num rat

fun js_add :: "jsnum \<Rightarrow> jsnum \<Rightarrow> jsnum" where
  "js_add (Num a) (Num b) = Num (to_double (a + b))"
| "js_add _ _ = NaN"

fun js_sub :: "jsnum \<Rightarrow> jsnum \<Rightarrow> jsnum" where
  "js_sub (Num a) (Num b) = Num (to_double (a - b))"
| "js_sub _ _ = NaN"

text \<open>The program only divides by 3 and by a pixel count it has tested to be positive.\<close>

fun js_div :: "jsnum \<Rightarrow> jsnum \<Rightarrow> jsnum" where
  "js_div (Num a) (Num b) = (if b = 0 then NaN else Num (to_double (a / b)))"
| "js_div _ _ = NaN"

text \<open>\<open>Math.abs\<close> is exact.\<close>

fun js_abs :: "jsnum \<Rightarrow> jsnum" where
  "js_abs (Num a) = Num \<bar>a\<bar>"
| "js_abs NaN = NaN"

text \<open>\<open>a > b\<close>: every comparison with NaN is false.\<close>

fun js_gt :: "jsnum \<Rightarrow> jsnum \<Rightarrow> bool" where
  "js_gt (Num a) (Num b) = (b < a)"
| "js_gt _ _ = False"

section \<open>motion.js: the motion detector\<close>

subsection \<open>Data\<close>

text \<open>
  \<open>ImageData\<close>: \<open>data\<close> is a \<open>Uint8ClampedArray\<close> of RGBA bytes, row-major, four per
  pixel. Reading it at or beyond its length gives \<open>undefined\<close>, which the sums of
  \<open>getRegionBrightness\<close> turn into NaN.
\<close>

record imageData =
  data :: "8 word list"
  img_width :: nat
  img_height :: nat

definition data_at :: "8 word list \<Rightarrow> nat \<Rightarrow> jsnum" where
  "data_at a i = (if i < length a then Num (of_nat (unat (a ! i))) else NaN)"

text \<open>
  The fields of a \<open>MotionDetector\<close>. \<open>video\<close>, \<open>ctx\<close> and \<open>debugCtx\<close> hold object
  references in the source; the detector only tests them for being non-null, so the
  model keeps that one bit. \<open>cooldowns\<close> holds \<open>Date.now()\<close> readings (milliseconds).
\<close>

record motionDetector =
  width :: nat
  height :: nat
  cols :: nat
  rows :: nat
  cellCount :: nat
  threshold :: int
  cooldownMs :: int
  previousBrightness :: "jsnum list"
  cooldowns :: "int list"
  video :: bool
  ctx :: bool
  debugCtx :: bool

text \<open>The constructor's \<open>options\<close> object: every field may be absent.\<close>

record options =
  opt_width :: "nat option"
  opt_height :: "nat option"
  opt_cols :: "nat option"
  opt_rows :: "nat option"
  opt_threshold :: "int option"
  opt_cooldownMs :: "int option"

text \<open>\<open>options.f || dflt\<close>: an absent field and the number 0 are both falsy.\<close>

definition or_default :: "'a::zero option \<Rightarrow> 'a \<Rightarrow> 'a" where
  "or_default v dflt = (case v of None \<Rightarrow> dflt | Some x \<Rightarrow> if x = 0 then dflt else x)"

definition no_options :: options where
  "no_options = \<lparr>opt_width = None, opt_height = None, opt_cols = None, opt_rows = None,
     opt_threshold = None, opt_cooldownMs = None\<rparr>"

definition new_MotionDetector :: "options \<Rightarrow> motionDetector" where
  "new_MotionDetector opts =
     (let w = or_default (opt_width opts) 64;
          h = or_default (opt_height opts) 48;
          c = or_default (opt_cols opts) 3;
          r = or_default (opt_rows opts) 3
      in \<lparr>width = w, height = h, cols = c, rows = r, cellCount = c * r,
           threshold = or_default (opt_threshold opts) 20,
           cooldownMs = or_default (opt_cooldownMs opts) 250,
           previousBrightness = replicate (c * r) (Num 0),
           cooldowns = replicate (c * r) 0,
           video = False, ctx = False, debugCtx = False\<rparr>)"

text \<open>
  \<open>init(video, debugCanvas = null)\<close>: binds the frame source, creates the off-screen
  canvas and its 2D context, and binds the debug canvas when one is given.
\<close>

definition init :: "bool \<Rightarrow> bool \<Rightarrow> motionDetector \<Rightarrow> motionDetector" where
  "init video_given debugCanvas_given d =
     (let d1 = d\<lparr>video := video_given, ctx := True\<rparr>
      in if debugCanvas_given then d1\<lparr>debugCtx := True\<rparr> else d1)"

subsection \<open>getRegionBrightness\<close>

text \<open>
  The body of the inner loop: \<open>idx = (y * width + x) * 4\<close> with the width of the image
  data, and \<open>(data[idx] + data[idx + 1] + data[idx + 2]) / 3\<close>.
\<close>

definition pixel_brightness :: "imageData \<Rightarrow> nat \<Rightarrow> nat \<Rightarrow> jsnum" where
  "pixel_brightness imgd x y =
     (let idx = (y * img_width imgd + x) * 4
      in js_div (js_add (js_add (data_at (data imgd) idx) (data_at (data imgd) (idx + 1)))
                        (data_at (data imgd) (idx + 2)))
                (Num 3))"

text \<open>
  The two nested \<open>for\<close> loops run \<open>y\<close> over \<open>startY ..< startY + cellH\<close> and \<open>x\<close> over
  \<open>startX ..< startX + cellW\<close>, carrying \<open>totalBrightness\<close> and \<open>pixelCount\<close>.
  \<open>Math.floor\<close> of a quotient of two naturals is \<open>div\<close>.
\<close>

definition sum_row :: "imageData \<Rightarrow> nat \<Rightarrow> nat \<Rightarrow> nat \<Rightarrow> jsnum \<times> nat \<Rightarrow> jsnum \<times> nat" where
  "sum_row imgd startX cellW y =
     fold (\<lambda>x (totalBrightness, pixelCount).
             (js_add totalBrightness (pixel_brightness imgd x y), pixelCount + 1))
          [startX..<startX + cellW]"

definition getRegionBrightness :: "motionDetector \<Rightarrow> imageData \<Rightarrow> nat \<Rightarrow> jsnum" where
  "getRegionBrightness d imgd cellIndex =
     (let col = cellIndex mod cols d;
          row = cellIndex div cols d;
          cellW = width d div cols d;
          cellH = height d div rows d;
          startX = col * cellW;
          startY = row * cellH;
          (totalBrightness, pixelCount) =
             fold (sum_row imgd startX cellW) [startY..<startY + cellH] (Num 0, 0)
      in if pixelCount > 0 then js_div totalBrightness (Num (of_nat pixelCount)) else Num 0)"

text \<open>The pixels of the frame buffer that the two loops visit for a cell, in visiting order.\<close>

definition cell_pixels :: "motionDetector \<Rightarrow> nat \<Rightarrow> (nat \<times> nat) list" where
  "cell_pixels d cellIndex =
     (let col = cellIndex mod cols d;
          row = cellIndex div cols d;
          cellW = width d div cols d;
          cellH = height d div rows d;
          startX = col * cellW;
          startY = row * cellH
      in concat (map (\<lambda>y. map (\<lambda>x. (x, y)) [startX..<startX + cellW]) [startY..<startY + cellH]))"

subsection \<open>detect\<close>

text \<open>
  What one call of \<open>detect()\<close> reads from its environment: the clock (\<open>Date.now()\<close>),
  the \<open>readyState\<close> of the video element, and the outcome of the guarded block that
  draws the mirrored video frame into the small canvas and reads the pixels back:
  either an exception or the image data.
\<close>

datatype dom_exception = InvalidStateError | SecurityError | OtherError

record tick =
  now :: int
  readyState :: nat
  capture :: "dom_exception + imageData"

definition HAVE_CURRENT_DATA :: nat where
  "HAVE_CURRENT_DATA = 2"

text \<open>One iteration of the loop over the cells (step 3 of \<open>detect\<close>).\<close>

definition detect_cell :: "int \<Rightarrow> imageData \<Rightarrow> nat \<Rightarrow> nat list \<times> motionDetector \<Rightarrow> nat list \<times> motionDetector" where
  "detect_cell now_ms imgd i = (\<lambda>(triggered, d).
     (let brightness = getRegionBrightness d imgd i;
          diff = js_abs (js_sub brightness (previousBrightness d ! i));
          (triggered', d') =
             (if js_gt diff (Num (of_int (threshold d))) \<and> now_ms > cooldowns d ! i
              then (triggered @ [i], d\<lparr>cooldowns := (cooldowns d)[i := now_ms + cooldownMs d]\<rparr>)
              else (triggered, d))
      in (triggered', d'\<lparr>previousBrightness := (previousBrightness d')[i := brightness]\<rparr>)))"

text \<open>
  \<open>detect()\<close>. The \<open>catch\<close> block restores the canvas context and returns the empty
  array. \<open>drawDebug\<close> only paints onto the debug canvas and changes no field of the
  detector, so it leaves no trace in the returned pair.
\<close>

definition detect :: "tick \<Rightarrow> motionDetector \<Rightarrow> nat list \<times> motionDetector" where
  "detect t d =
     (if \<not> video d \<or> \<not> ctx d then ([], d)
      else if readyState t < HAVE_CURRENT_DATA then ([], d)
      else (case capture t of
              Inl error \<Rightarrow> ([], d)
            | Inr imgd \<Rightarrow> fold (detect_cell (now t) imgd) [0..<cellCount d] ([], d)))"

text \<open>The frame loop of the controller calls \<open>detect()\<close> once per animation frame.\<close>

fun run :: "motionDetector \<Rightarrow> tick list \<Rightarrow> nat list list" where
  "run d [] = []"
| "run d (t # ts) = (case detect t d of (triggered, d') \<Rightarrow> triggered # run d' ts)"

subsection \<open>Setters and reset\<close>

definition setThreshold :: "int \<Rightarrow> motionDetector \<Rightarrow> motionDetector" where
  "setThreshold v d = d\<lparr>threshold := max 1 (min 100 v)\<rparr>"

definition setCooldown :: "int \<Rightarrow> motionDetector \<Rightarrow> motionDetector" where
  "setCooldown ms d = d\<lparr>cooldownMs := max 50 (min 1000 ms)\<rparr>"

definition reset :: "motionDetector \<Rightarrow> motionDetector" where
  "reset d = d\<lparr>previousBrightness := map (\<lambda>_. Num 0) (previousBrightness d),
               cooldowns := map (\<lambda>_. 0) (cooldowns d)\<rparr>"

section \<open>Notions used by the statements and proofs\<close>

text \<open>
  The constructor creates both state arrays with \<open>cellCount\<close> entries and nothing
  resizes them, so the loop of \<open>detect\<close> always indexes them in range.
\<close>

definition wf_detector :: "motionDetector \<Rightarrow> bool" where
  "wf_detector d = (length (previousBrightness d) = cellCount d \<and> length (cooldowns d) = cellCount d)"

text \<open>
  \<open>getImageData(0, 0, width, height)\<close> returns the pixels of the \<open>width \<times> height\<close>
  canvas: four bytes per pixel.
\<close>

definition wf_image :: "motionDetector \<Rightarrow> imageData \<Rightarrow> bool" where
  "wf_image d imgd = (img_width imgd = width d \<and> img_height imgd = height d
      \<and> length (data imgd) = 4 * (width d * height d))"

text \<open>
  The brightness of a pixel in the words of the specification: the unweighted mean
  \<open>(R + G + B) / 3\<close> of its three colour channels.
\<close>

definition channel_mean :: "imageData \<Rightarrow> nat \<Rightarrow> nat \<Rightarrow> rat" where
  "channel_mean imgd x y =
     (let idx = (y * img_width imgd + x) * 4
      in (of_nat (unat (data imgd ! idx)) + of_nat (unat (data imgd ! (idx + 1)))
          + of_nat (unat (data imgd ! (idx + 2)))) / 3)"

text \<open>
  The running total of the two loops over a list of exact pixel means: each mean is
  rounded when it is computed, and each addition to the total is rounded.
\<close>

definition rounded_sum :: "rat list \<Rightarrow> rat \<Rightarrow> rat" where
  "rounded_sum ms t = fold (\<lambda>m total. to_double (total + to_double m)) ms t"

text \<open>
  The trigger condition of the loop, read on the state \<open>d\<close> in which \<open>detect\<close> was
  entered, and the state after the first \<open>k\<close> iterations of the loop.
\<close>

definition fires :: "int \<Rightarrow> imageData \<Rightarrow> motionDetector \<Rightarrow> nat \<Rightarrow> bool" where
  "fires now_ms imgd d i =
     (js_gt (js_abs (js_sub (getRegionBrightness d imgd i) (previousBrightness d ! i)))
            (Num (of_int (threshold d)))
      \<and> now_ms > cooldowns d ! i)"

definition after_cells :: "int \<Rightarrow> imageData \<Rightarrow> motionDetector \<Rightarrow> nat \<Rightarrow> motionDetector" where
  "after_cells n imgd d k =
     d\<lparr>cooldowns := map (\<lambda>i. if i < k \<and> fires n imgd d i then n + cooldownMs d else cooldowns d ! i) [0..<cellCount d],
       previousBrightness := map (\<lambda>i. if i < k then getRegionBrightness d imgd i else previousBrightness d ! i) [0..<cellCount d]\<rparr>"

subsection \<open>Concrete inputs\<close>

text \<open>
  A detector as the controller sets it up: constructed, then bound to a video element
  by \<open>init\<close>. A frame of one uniform grey level, fully opaque. One call of \<open>detect\<close>
  that reads such a frame at clock reading \<open>ms\<close>, the video being in state
  \<open>HAVE_ENOUGH_DATA\<close> (4).
\<close>

definition default_detector :: motionDetector where
  "default_detector = init True False (new_MotionDetector no_options)"

definition gray_frame :: "nat \<Rightarrow> nat \<Rightarrow> 8 word \<Rightarrow> imageData" where
  "gray_frame w h v =
     \<lparr>data = concat (replicate (w * h) [v, v, v, 255]), img_width = w, img_height = h\<rparr>"


definition frame_at :: "int \<Rightarrow> 8 word \<Rightarrow> tick" where
  "frame_at ms v = \<lparr>now = ms, readyState = 4, capture = Inr (gray_frame 64 48 v)\<rparr>"

subsection \<open>Comparing two runs\<close>

text \<open>
  Two calls of \<open>detect()\<close> read the same inputs when the clock readings agree, the
  videos are both ready or both not, and the guarded block yields the same pixels or
  throws in both. Two detectors are in the same detection state when they agree on the
  configuration, on the per-cell state and on the bound source and canvas; the debug
  canvas may differ.
\<close>

definition same_inputs :: "tick \<Rightarrow> tick \<Rightarrow> bool" where
  "same_inputs t1 t2 =
     (now t1 = now t2
      \<and> (readyState t1 < HAVE_CURRENT_DATA) = (readyState t2 < HAVE_CURRENT_DATA)
      \<and> (case (capture t1, capture t2) of
            (Inr a, Inr b) \<Rightarrow> a = b
          | (Inl _, Inl _) \<Rightarrow> True
          | _ \<Rightarrow> False))"

definition same_detection_state :: "motionDetector \<Rightarrow> motionDetector \<Rightarrow> bool" where
  "same_detection_state d1 d2 =
     (width d1 = width d2 \<and> height d1 = height d2 \<and> cols d1 = cols d2 \<and> rows d1 = rows d2
      \<and> cellCount d1 = cellCount d2 \<and> threshold d1 = threshold d2
      \<and> cooldownMs d1 = cooldownMs d2
      \<and> previousBrightness d1 = previousBrightness d2 \<and> cooldowns d1 = cooldowns d2
      \<and> video d1 = video d2 \<and> ctx d1 = ctx d2)"

section \<open>audio.js: the drum synthesiser\<close>

text \<open>
  The \<open>AudioContext\<close> belongs to the platform; the model keeps its \<open>state\<close>. A
  \<open>SynthDrums\<close> object holds the context (or null), the master gain node (its gain value)
  and the noise buffer (present or not).
\<close>

datatype context_state = Suspended | Running

record synthDrums =
  audioContext :: "context_state option"
  noiseBuffer :: bool
  masterGain :: "rat option"

text \<open>
  What a call does to the platform: it resumes the context, starts the source node of a
  voice chain, writes a warning to the console, or closes the context. A chain is a
  source (an oscillator with its waveform and start and end frequency in Hz, or the
  shared noise buffer), its filters (type and frequency), the peak gain of its envelope,
  and the start and stop times of the source in milliseconds after \<open>currentTime\<close>.
\<close>

datatype waveform = Sine | Triangle | Square

datatype source = Oscillator waveform nat nat | Noise

datatype filter_type = Bandpass | Highpass | Lowpass

record chain =
  src :: source
  filters :: "(filter_type \<times> nat) list"
  peak :: rat
  start_ms :: nat
  stop_ms :: nat

datatype effect = Resume | Start chain | Warn string | Close

definition new_SynthDrums :: synthDrums where
  "new_SynthDrums = \<lparr>audioContext = None, noiseBuffer = False, masterGain = None\<rparr>"

text \<open>
  \<open>async init()\<close> runs synchronously up to its \<open>await\<close>: it creates the context (the
  platform decides the state of a fresh context), the master gain at 0.8 and the noise
  buffer. When the context is suspended it then awaits \<open>resume()\<close>; the second component
  tells whether the call is still pending at that point, its work on the object done.
\<close>

definition SynthDrums_init :: "context_state \<Rightarrow> synthDrums \<Rightarrow> synthDrums \<times> bool" where
  "SynthDrums_init fresh s =
     (s\<lparr>audioContext := Some fresh, masterGain := Some (8 / 10), noiseBuffer := True\<rparr>,
      fresh = Suspended)"

definition playKick :: "chain list" where
  "playKick = [\<lparr>src = Oscillator Sine 150 40, filters = [], peak = 1, start_ms = 0, stop_ms = 400\<rparr>]"

definition playSnare :: "chain list" where
  "playSnare =
     [\<lparr>src = Noise, filters = [(Bandpass, 3000)], peak = 8 / 10, start_ms = 0, stop_ms = 200\<rparr>,
      \<lparr>src = Oscillator Triangle 180 100, filters = [], peak = 7 / 10, start_ms = 0, stop_ms = 100\<rparr>]"

definition playHihat :: "chain list" where
  "playHihat = [\<lparr>src = Noise, filters = [(Highpass, 7000)], peak = 4 / 10, start_ms = 0, stop_ms = 80\<rparr>]"

text \<open>Four bursts, 10 ms apart; the last one is the loudest.\<close>

definition playClap :: "chain list" where
  "playClap =
     map (\<lambda>i. \<lparr>src = Noise, filters = [(Bandpass, 1500)],
                peak = (if i = 4 - 1 then 8 / 10 else 4 / 10),
                start_ms = i * 10, stop_ms = i * 10 + 150\<rparr>)
         [0..<4]"

definition playTom :: "nat \<Rightarrow> nat \<Rightarrow> chain list" where
  "playTom startFreq endFreq =
     [\<lparr>src = Oscillator Sine startFreq endFreq, filters = [], peak = 8 / 10,
       start_ms = 0, stop_ms = 300\<rparr>]"

definition playCrash :: "chain list" where
  "playCrash =
     [\<lparr>src = Noise, filters = [(Highpass, 5000), (Lowpass, 12000)], peak = 7 / 10,
       start_ms = 0, stop_ms = 1500\<rparr>]"

definition playRide :: "chain list" where
  "playRide =
     [\<lparr>src = Noise, filters = [(Bandpass, 8000)], peak = 3 / 10, start_ms = 0, stop_ms = 600\<rparr>,
      \<lparr>src = Oscillator Sine 6000 6000, filters = [], peak = 1 / 10, start_ms = 0, stop_ms = 400\<rparr>]"

definition playSynth :: "chain list" where
  "playSynth =
     [\<lparr>src = Oscillator Square 440 440, filters = [(Lowpass, 2000)], peak = 4 / 10,
       start_ms = 0, stop_ms = 300\<rparr>]"

text \<open>
  \<open>play(soundName)\<close>: the guard on \<open>audioContext\<close>, the resume of a suspended context,
  and the \<open>switch\<close> over the name with its \<open>default\<close> branch.
\<close>

definition play :: "string \<Rightarrow> synthDrums \<Rightarrow> effect list" where
  "play soundName s =
     (case audioContext s of
        None \<Rightarrow> []
      | Some st \<Rightarrow>
          (if st = Suspended then [Resume] else []) @
          (if soundName = ''kick'' then map Start playKick
           else if soundName = ''snare'' then map Start playSnare
           else if soundName = ''hihat'' then map Start playHihat
           else if soundName = ''clap'' then map Start playClap
           else if soundName = ''tom1'' then map Start (playTom 200 100)
           else if soundName = ''tom2'' then map Start (playTom 120 60)
           else if soundName = ''crash'' then map Start playCrash
           else if soundName = ''ride'' then map Start playRide
           else if soundName = ''synth'' then map Start playSynth
           else [Warn (''Unknown sound: '' @ soundName)]))"

definition dispose :: "synthDrums \<Rightarrow> effect list \<times> synthDrums" where
  "dispose s =
     (case audioContext s of
        None \<Rightarrow> ([], s)
      | Some st \<Rightarrow> ([Close], s\<lparr>audioContext := None\<rparr>))"

text \<open>The names of the nine voices, and the effects that start a source node.\<close>

definition voices :: "string list" where
  "voices = [''kick'', ''snare'', ''hihat'', ''clap'', ''tom1'', ''tom2'', ''crash'', ''ride'', ''synth'']"

fun is_Start :: "effect \<Rightarrow> bool" where
  "is_Start (Start c) = True"
| "is_Start _ = False"

section \<open>The source rectangle of the frame capture\<close>

text \<open>
  Step 1 of \<open>detect()\<close> calls
  \<open>this.ctx.drawImage(this.video, -this.width, 0, this.width, this.height)\<close>
  under \<open>scale(-1, 1)\<close>. \<open>drawImage\<close> takes either a destination rectangle alone, and
  then samples the whole image, or a source rectangle and a destination rectangle. The
  call in \<open>detect()\<close> depends on no field of the detector but \<open>width\<close> and \<open>height\<close>, and
  the constructor reads no option that selects another call.
\<close>

datatype drawImage_args =
  Dest int int int int
| SourceDest rat rat rat rat int int int int

definition detect_drawImage :: "motionDetector \<Rightarrow> drawImage_args" where
  "detect_drawImage d = Dest (- int (width d)) 0 (int (width d)) (int (height d))"

text \<open>The part \<open>(sx, sy, sw, sh)\<close> of a \<open>videoWidth \<times> videoHeight\<close> frame that a call samples.\<close>

fun source_rect :: "nat \<Rightarrow> nat \<Rightarrow> drawImage_args \<Rightarrow> rat \<times> rat \<times> rat \<times> rat" where
  "source_rect videoWidth videoHeight (Dest dx dy dw dh) = (0, 0, of_nat videoWidth, of_nat videoHeight)"
| "source_rect videoWidth videoHeight (SourceDest sx sy sw sh dx dy dw dh) = (sx, sy, sw, sh)"

text \<open>
  Modelled from the spec: the crop mode of the detector, which the source of \<open>detect()\<close>
  does not have. The source frame is cropped to the aspect ratio of the grid before
  downsampling: a centre crop, as a "cover" fit shows it. A frame wider than the grid
  loses equal margins left and right, a taller one equal margins top and bottom.
\<close>

definition cover_crop :: "nat \<Rightarrow> nat \<Rightarrow> nat \<Rightarrow> nat \<Rightarrow> rat \<times> rat \<times> rat \<times> rat" where
  "cover_crop videoWidth videoHeight w h =
     (if videoHeight * w < videoWidth * h
      then (let sw = of_nat (videoHeight * w) / of_nat h
            in ((of_nat videoWidth - sw) / 2, 0, sw, of_nat videoHeight))
      else (let sh = of_nat (videoWidth * h) / of_nat w
            in (0, (of_nat videoHeight - sh) / 2, of_nat videoWidth, sh)))"

section \<open>Rounding to a double\<close>

lemma round_half_even_of_int: "round_half_even (of_int m) = m"
  by (simp add: round_half_even_def)

lemma round_half_even_cases:
  "round_half_even r = \<lfloor>r\<rfloor> \<and> r - of_int \<lfloor>r\<rfloor> \<le> 1 / 2
   \<or> round_half_even r = \<lfloor>r\<rfloor> + 1 \<and> 1 / 2 \<le> r - of_int \<lfloor>r\<rfloor>"
  by (auto simp: round_half_even_def Let_def)


lemma round_half_even_le:
  assumes "r \<le> of_int m"
  shows "round_half_even r \<le> m"
proof (cases "r = of_int m")
  case True
  then show ?thesis by (simp add: round_half_even_of_int)
next
  case False
  then have "r < of_int m" using assms by simp
  then have "\<lfloor>r\<rfloor> < m" by (simp add: floor_less_iff)
  then show ?thesis using round_half_even_cases [of r] by auto
qed

lemma round_half_even_ge:
  assumes "of_int m \<le> r"
  shows "m \<le> round_half_even r"
proof -
  have "m \<le> \<lfloor>r\<rfloor>" using assms by (simp add: le_floor_iff)
  then show ?thesis using round_half_even_cases [of r] by auto
qed

text \<open>
  The exponent is the one of the binade: \<open>2 powi binade x \<le> |x|\<close> unless the exponent is
  held at \<open>-1022\<close>, and \<open>|x| < 2 powi (binade x + 1)\<close>.
\<close>

lemma binade_lower: "binade x = - 1022 \<or> 2 powi binade x \<le> \<bar>x\<bar>"
proof (cases "x = 0")
  case True
  then show ?thesis by (simp add: binade_def)
next
  case False
  obtain p q where pq: "quotient_of \<bar>x\<bar> = (p, q)" by (cases "quotient_of \<bar>x\<bar>")
  have q: "0 < q" using pq by (rule quotient_of_denom_pos)
  have x: "\<bar>x\<bar> = of_int p / of_int q" using pq by (rule quotient_of_div)
  have "0 < \<bar>x\<bar>" using False by simp
  then have p: "0 < p" using q by (simp add: x zero_less_divide_iff)
  let ?k = "bitlen p - bitlen q"
  have lo: "2 powi (?k - 1) \<le> \<bar>x\<bar>"
  proof -
    have bp: "(2::rat) ^ nat (bitlen p - 1) \<le> of_int p"
    proof -
      have "2 ^ nat (bitlen p - 1) \<le> p" using bitlen_bounds [OF p] by simp
      then have "(of_int (2 ^ nat (bitlen p - 1)) :: rat) \<le> of_int p" by (simp only: of_int_le_iff)
      then show ?thesis by simp
    qed
    have bq: "of_int q \<le> (2::rat) ^ nat (bitlen q)"
    proof -
      have "q \<le> 2 ^ nat (bitlen q)" using bitlen_bounds [OF q] by simp
      then have "(of_int q :: rat) \<le> of_int (2 ^ nat (bitlen q))" by (simp only: of_int_le_iff)
      then show ?thesis by simp
    qed
    have b1: "1 \<le> bitlen p" using p by (auto simp: bitlen_alt_def)
    have b2: "0 \<le> bitlen q" by (rule bitlen_nonneg)
    have "?k - 1 = (bitlen p - 1) - bitlen q" by simp
    then have "(2::rat) powi (?k - 1) = 2 powi ((bitlen p - 1) - bitlen q)" by (rule arg_cong)
    also have "\<dots> = 2 powi (bitlen p - 1) / 2 powi (bitlen q)"
      by (rule power_int_diff) simp
    also have "\<dots> = 2 ^ nat (bitlen p - 1) / 2 ^ nat (bitlen q)"
      using b1 b2 by (simp add: power_int_def)
    also have "\<dots> \<le> of_int p / of_int q"
      using bp bq q p by (intro frac_le) simp_all
    finally show ?thesis by (simp add: x)
  qed
  show ?thesis
  proof (cases "\<bar>x\<bar> < 2 powi ?k")
    case True
    then have "binade x = max (?k - 1) (- 1022)" using \<open>x \<noteq> 0\<close> by (simp add: binade_def pq)
    then show ?thesis using lo by (auto simp: max_def)
  next
    case False
    then have "binade x = max ?k (- 1022)" using \<open>x \<noteq> 0\<close> by (simp add: binade_def pq)
    then show ?thesis using False by (auto simp: max_def)
  qed
qed

lemma binade_above:
  assumes "x \<noteq> 0"
  shows "\<bar>x\<bar> < 2 powi (binade x + 1)"
proof -
  obtain p q where pq: "quotient_of \<bar>x\<bar> = (p, q)" by (cases "quotient_of \<bar>x\<bar>")
  have q: "0 < q" using pq by (rule quotient_of_denom_pos)
  have x: "\<bar>x\<bar> = of_int p / of_int q" using pq by (rule quotient_of_div)
  have "0 < \<bar>x\<bar>" using assms by simp
  then have p: "0 < p" using q by (simp add: x zero_less_divide_iff)
  let ?k = "bitlen p - bitlen q"
  have hi: "\<bar>x\<bar> < 2 powi (?k + 1)"
  proof -
    have bp: "of_int p < (2::rat) ^ nat (bitlen p)"
    proof -
      have "p < 2 ^ nat (bitlen p)" using bitlen_bounds [OF p] by simp
      then have "(of_int p :: rat) < of_int (2 ^ nat (bitlen p))" by (simp only: of_int_less_iff)
      then show ?thesis by simp
    qed
    have bq: "(2::rat) ^ nat (bitlen q - 1) \<le> of_int q"
    proof -
      have "2 ^ nat (bitlen q - 1) \<le> q" using bitlen_bounds [OF q] by simp
      then have "(of_int (2 ^ nat (bitlen q - 1)) :: rat) \<le> of_int q" by (simp only: of_int_le_iff)
      then show ?thesis by simp
    qed
    have b1: "0 \<le> bitlen p" by (rule bitlen_nonneg)
    have b2: "1 \<le> bitlen q" using q by (auto simp: bitlen_alt_def)
    have "(of_int p :: rat) / of_int q < 2 ^ nat (bitlen p) / 2 ^ nat (bitlen q - 1)"
      using bp bq q p by (intro frac_less) simp_all
    also have "\<dots> = 2 powi (bitlen p) / 2 powi (bitlen q - 1)"
      using b1 b2 by (simp add: power_int_def)
    also have "\<dots> = 2 powi (bitlen p - (bitlen q - 1))"
      by (rule power_int_diff [symmetric]) simp
    also have "bitlen p - (bitlen q - 1) = ?k + 1" by simp
    finally show ?thesis by (simp only: x)
  qed
  let ?e = "if \<bar>x\<bar> < 2 powi ?k then ?k - 1 else ?k"
  have b: "binade x = max ?e (- 1022)" using assms by (simp add: binade_def pq)
  have "\<bar>x\<bar> < 2 powi (?e + 1)" using hi by simp
  also have "(2::rat) powi (?e + 1) \<le> 2 powi (binade x + 1)"
    unfolding b by (intro power_int_increasing) simp_all
  finally show ?thesis .
qed

lemma binade_upper:
  assumes "\<bar>x\<bar> < 2 powi (b + 1)" "- 1022 \<le> b"
  shows "binade x \<le> b"
proof (rule ccontr)
  assume "\<not> binade x \<le> b"
  then have gt: "b + 1 \<le> binade x" by simp
  then have "binade x \<noteq> - 1022" using assms(2) by simp
  then have "2 powi binade x \<le> \<bar>x\<bar>" using binade_lower [of x] by simp
  moreover have "(2::rat) powi (b + 1) \<le> 2 powi binade x"
    using gt by (intro power_int_increasing) simp_all
  ultimately show False using assms(1) by simp
qed


lemma to_double_zero [simp]: "to_double 0 = 0"
  by (simp add: to_double_def round_half_even_of_int [of 0, simplified])

lemma ulp_as_fraction:
  assumes "e \<le> 52"
  shows "(2::rat) powi (e - 52) = 1 / 2 ^ nat (52 - e)"
proof -
  have "e - 52 = - int (nat (52 - e))" using assms by simp
  then have "(2::rat) powi (e - 52) = 2 powi (- int (nat (52 - e)))" by (rule arg_cong)
  also have "\<dots> = 1 / 2 ^ nat (52 - e)"
    by (simp only: power_int_minus_divide power_int_of_nat)
  finally show ?thesis .
qed

lemma binade_below_53:
  assumes "\<bar>x\<bar> < 2 ^ 53"
  shows "binade x \<le> 52"
proof -
  have "(2::rat) powi (52 + 1) = 2 ^ 53" by (simp add: power_int_def)
  then have "\<bar>x\<bar> < 2 powi (52 + 1)" using assms by simp
  then show ?thesis by (rule binade_upper) simp
qed

lemma to_double_le_int:
  assumes "\<bar>x\<bar> < 2 ^ 53" "x \<le> of_int n"
  shows "to_double x \<le> of_int n"
proof -
  let ?u = "(2::rat) powi (binade x - 52)"
  let ?m = "n * 2 ^ nat (52 - binade x)"
  have u: "?u = 1 / 2 ^ nat (52 - binade x)"
    using binade_below_53 [OF assms(1)] by (rule ulp_as_fraction)
  have pos: "0 < ?u" by simp
  have "x / ?u \<le> of_int n / ?u" using assms(2) pos by (simp add: divide_right_mono)
  also have "of_int n / ?u = of_int ?m" by (simp add: u)
  finally have "round_half_even (x / ?u) \<le> ?m" by (rule round_half_even_le)
  then have "(of_int (round_half_even (x / ?u)) :: rat) \<le> of_int ?m" by (simp only: of_int_le_iff)
  then have "of_int (round_half_even (x / ?u)) * ?u \<le> of_int ?m * ?u"
    using pos by (simp add: mult_right_mono)
  also have "of_int ?m * ?u = of_int n" by (simp add: u)
  finally show ?thesis by (simp add: to_double_def Let_def)
qed

lemma to_double_ge_int:
  assumes "\<bar>x\<bar> < 2 ^ 53" "of_int n \<le> x"
  shows "of_int n \<le> to_double x"
proof -
  let ?u = "(2::rat) powi (binade x - 52)"
  let ?m = "n * 2 ^ nat (52 - binade x)"
  have u: "?u = 1 / 2 ^ nat (52 - binade x)"
    using binade_below_53 [OF assms(1)] by (rule ulp_as_fraction)
  have pos: "0 < ?u" by simp
  have "of_int ?m = of_int n / ?u" by (simp add: u)
  also have "\<dots> \<le> x / ?u" using assms(2) pos by (simp add: divide_right_mono)
  finally have "?m \<le> round_half_even (x / ?u)" by (rule round_half_even_ge)
  then have le: "(of_int ?m :: rat) \<le> of_int (round_half_even (x / ?u))" by (simp only: of_int_le_iff)
  have "of_int n = of_int ?m * ?u" by (simp add: u)
  also have "\<dots> \<le> of_int (round_half_even (x / ?u)) * ?u"
    using le pos by (simp add: mult_right_mono)
  finally show ?thesis by (simp add: to_double_def Let_def)
qed

lemma to_double_of_int:
  assumes "\<bar>n\<bar> < 2 ^ 53"
  shows "to_double (of_int n) = of_int n"
proof -
  have "\<bar>of_int n :: rat\<bar> = of_int \<bar>n\<bar>" by simp
  also have "\<dots> < of_int (2 ^ 53)" using assms by (simp only: of_int_less_iff)
  finally have b: "\<bar>of_int n :: rat\<bar> < 2 ^ 53" by simp
  have "to_double (of_int n) \<le> of_int n" using b by (rule to_double_le_int) simp
  moreover have "of_int n \<le> to_double (of_int n)" using b by (rule to_double_ge_int) simp
  ultimately show ?thesis by simp
qed

lemma to_double_of_nat:
  assumes "n < 2 ^ 53"
  shows "to_double (of_nat n) = of_nat n"
  using to_double_of_int [of "int n"] assms by simp



text \<open>
  Three values as the machine computes them: \<open>1 / 3\<close> is the double
  \<open>0.3333333333333333\<close>; a tie goes to the even neighbour; and the mean of the pixel
  means \<open>1 / 3\<close>, \<open>133 / 3\<close> and \<open>46 / 3\<close>, summed in this order, is the double
  \<open>20.000000000000004\<close>, not 20.
\<close>

lemma to_double_examples:
  "to_double (1 / 3) = 6004799503160661 / 2 ^ 54"
  "to_double (2 ^ 53 + 1) = 2 ^ 53"
  "to_double (to_double (to_double (to_double (0 + to_double (1 / 3)) + to_double (133 / 3))
      + to_double (46 / 3)) / 3) = 5629499534213121 / 2 ^ 48"
  by code_simp+

section \<open>The loop of detect in closed form\<close>

lemma getRegionBrightness_state [simp]:
  "getRegionBrightness (d\<lparr>cooldowns := c\<rparr>) = getRegionBrightness d"
  "getRegionBrightness (d\<lparr>previousBrightness := p\<rparr>) = getRegionBrightness d"
  by (simp_all add: getRegionBrightness_def fun_eq_iff)

lemma after_cells_0: 
  assumes "wf_detector d" shows "after_cells n imgd d 0 = d"
proof -
  have c: "map (\<lambda>i. cooldowns d ! i) [0..<cellCount d] = cooldowns d"
    using assms map_nth [of "cooldowns d"] by (simp add: wf_detector_def)
  have p: "map (\<lambda>i. previousBrightness d ! i) [0..<cellCount d] = previousBrightness d"
    using assms map_nth [of "previousBrightness d"] by (simp add: wf_detector_def)
  show ?thesis by (simp add: after_cells_def c p)
qed

lemma upd_map_upt:
  "k < m \<Longrightarrow> (map f [0..<m])[k := v] = map (f(k := v)) [0..<m]"
  by (rule nth_equalityI) (simp_all add: nth_list_update)

lemma detect_cell_after:
  assumes "wf_detector d" "k < cellCount d"
  shows "detect_cell n imgd k (filter (fires n imgd d) [0..<k], after_cells n imgd d k)
         = (filter (fires n imgd d) [0..<Suc k], after_cells n imgd d (Suc k))"
proof -
  let ?F = "fires n imgd d"
  let ?g = "getRegionBrightness d imgd"
  let ?m = "cellCount d"
  let ?A = "after_cells n imgd d k"
  have pk: "previousBrightness ?A ! k = previousBrightness d ! k"
    and ck: "cooldowns ?A ! k = cooldowns d ! k"
    using assms by (simp_all add: after_cells_def)
  have cond: "(js_gt (js_abs (js_sub (getRegionBrightness ?A imgd k) (previousBrightness ?A ! k)))
                 (Num (of_int (threshold ?A))) \<and> n > cooldowns ?A ! k) = ?F k"
    by (simp only: pk ck) (simp add: fires_def after_cells_def)
  have pb: "map ((\<lambda>i. if i < k then ?g i else previousBrightness d ! i)(k := ?g k)) [0..<?m]
            = map (\<lambda>i. if i < Suc k then ?g i else previousBrightness d ! i) [0..<?m]"
    by (rule map_cong) (auto simp: less_Suc_eq)
  have cdT: "map ((\<lambda>i. if i < k \<and> ?F i then n + cooldownMs d else cooldowns d ! i)(k := n + cooldownMs d)) [0..<?m]
            = map (\<lambda>i. if i < Suc k \<and> ?F i then n + cooldownMs d else cooldowns d ! i) [0..<?m]"
    if "?F k"
    using that by (intro map_cong refl) (auto simp: less_Suc_eq)
  have cdF: "map (\<lambda>i. if i < k \<and> ?F i then n + cooldownMs d else cooldowns d ! i) [0..<?m]
            = map (\<lambda>i. if i < Suc k \<and> ?F i then n + cooldownMs d else cooldowns d ! i) [0..<?m]"
    if "\<not> ?F k"
    using that by (intro map_cong refl) (auto simp: less_Suc_eq)
  have gA: "getRegionBrightness ?A imgd k = ?g k"
    by (simp add: after_cells_def)
  show ?thesis
  proof (cases "?F k")
    case True
    have "detect_cell n imgd k (filter ?F [0..<k], ?A)
          = (filter ?F [0..<k] @ [k],
             ?A\<lparr>cooldowns := (cooldowns ?A)[k := n + cooldownMs ?A],
                previousBrightness := (previousBrightness ?A)[k := ?g k]\<rparr>)"
      using True cond by (simp add: detect_cell_def Let_def gA)
    also have "\<dots> = (filter ?F [0..<Suc k], after_cells n imgd d (Suc k))"
      using True assms(2) by (simp add: after_cells_def upd_map_upt pb cdT)
    finally show ?thesis .
  next
    case False
    have "detect_cell n imgd k (filter ?F [0..<k], ?A)
          = (filter ?F [0..<k],
             ?A\<lparr>previousBrightness := (previousBrightness ?A)[k := ?g k]\<rparr>)"
      using False cond by (simp add: detect_cell_def Let_def gA)
    also have "\<dots> = (filter ?F [0..<Suc k], after_cells n imgd d (Suc k))"
      using False assms(2) by (simp add: after_cells_def upd_map_upt pb cdF)
    finally show ?thesis .
  qed
qed

lemma detect_loop_prefix:
  assumes "wf_detector d" "k \<le> cellCount d"
  shows "fold (detect_cell n imgd) [0..<k] ([], d)
         = (filter (fires n imgd d) [0..<k], after_cells n imgd d k)"
  using assms
proof (induction k)
  case 0
  then show ?case by (simp add: after_cells_0)
next
  case (Suc k)
  then show ?case by (simp add: detect_cell_after)
qed

section \<open>Region brightness under rounding\<close>

lemma to_double_numeral [simp]:
  "(numeral k :: int) < 2 ^ 53 \<Longrightarrow> to_double (numeral k) = numeral k"
  "(numeral k :: int) < 2 ^ 53 \<Longrightarrow> to_double (- numeral k) = - numeral k"
  using to_double_of_int [of "numeral k"] to_double_of_int [of "- numeral k"] by simp_all

lemma byte_sum_exact:
  fixes a b c :: nat
  assumes "a < 256" "b < 256" "c < 256"
  shows "js_add (js_add (Num (of_nat a)) (Num (of_nat b))) (Num (of_nat c))
         = Num (of_nat a + of_nat b + of_nat c)"
proof -
  have "to_double (of_nat (a + b)) = of_nat (a + b)"
    using assms by (intro to_double_of_nat) simp
  then have ab: "to_double (of_nat a + of_nat b) = of_nat a + of_nat b" by simp
  have "to_double (of_nat (a + b + c)) = of_nat (a + b + c)"
    using assms by (intro to_double_of_nat) simp
  then have abc: "to_double (of_nat a + of_nat b + of_nat c) = of_nat a + of_nat b + of_nat c"
    by simp
  show ?thesis by (simp only: js_add.simps ab abc)
qed

lemma pixel_brightness_in_range:
  assumes "(y * img_width imgd + x) * 4 + 2 < length (data imgd)"
  shows "pixel_brightness imgd x y = Num (to_double (channel_mean imgd x y))"
proof -
  let ?i = "(y * img_width imgd + x) * 4"
  have r: "data_at (data imgd) ?i = Num (of_nat (unat (data imgd ! ?i)))"
    "data_at (data imgd) (?i + 1) = Num (of_nat (unat (data imgd ! (?i + 1))))"
    "data_at (data imgd) (?i + 2) = Num (of_nat (unat (data imgd ! (?i + 2))))"
    using assms by (simp_all add: data_at_def)
  have b: "unat w < 256" for w :: "8 word"
    using unsigned_less [of w] by simp
  have s: "js_add (js_add (data_at (data imgd) ?i) (data_at (data imgd) (?i + 1)))
                  (data_at (data imgd) (?i + 2))
           = Num (of_nat (unat (data imgd ! ?i)) + of_nat (unat (data imgd ! (?i + 1)))
                  + of_nat (unat (data imgd ! (?i + 2))))"
    unfolding r by (rule byte_sum_exact) (rule b)+
  show ?thesis
    unfolding pixel_brightness_def channel_mean_def Let_def s by simp
qed

lemma rounded_sum_simps:
  "rounded_sum [] t = t"
  "rounded_sum (m # ms) t = rounded_sum ms (to_double (t + to_double m))"
  "rounded_sum (as @ bs) t = rounded_sum bs (rounded_sum as t)"
  by (simp_all add: rounded_sum_def)

lemma fold_row:
  assumes "\<forall>x\<in>set xs. (y * img_width imgd + x) * 4 + 2 < length (data imgd)"
  shows "fold (\<lambda>x (totalBrightness, pixelCount).
             (js_add totalBrightness (pixel_brightness imgd x y), pixelCount + 1)) xs (Num t, c)
         = (Num (rounded_sum (map (\<lambda>x. channel_mean imgd x y) xs) t), c + length xs)"
  using assms
  by (induction xs arbitrary: t c) (simp_all add: pixel_brightness_in_range rounded_sum_simps)

lemma sum_row_in_range:
  assumes "\<forall>x\<in>set [sx..<sx + cw]. (y * img_width imgd + x) * 4 + 2 < length (data imgd)"
  shows "sum_row imgd sx cw y (Num t, c)
         = (Num (rounded_sum (map (\<lambda>x. channel_mean imgd x y) [sx..<sx + cw]) t), c + cw)"
  unfolding sum_row_def using fold_row [OF assms, of t c] by simp

lemma fold_rows:
  assumes "\<forall>y\<in>set ys. \<forall>x\<in>set [sx..<sx + cw]. (y * img_width imgd + x) * 4 + 2 < length (data imgd)"
  shows "fold (sum_row imgd sx cw) ys (Num t, c)
         = (Num (rounded_sum (concat (map (\<lambda>y. map (\<lambda>x. channel_mean imgd x y) [sx..<sx + cw]) ys)) t),
            c + length ys * cw)"
  using assms
proof (induction ys arbitrary: t c)
  case Nil
  then show ?case by (simp add: rounded_sum_simps)
next
  case (Cons y ys)
  have r: "\<forall>x\<in>set [sx..<sx + cw]. (y * img_width imgd + x) * 4 + 2 < length (data imgd)"
    using Cons.prems by simp
  have rest: "\<forall>y\<in>set ys. \<forall>x\<in>set [sx..<sx + cw]. (y * img_width imgd + x) * 4 + 2 < length (data imgd)"
    using Cons.prems by simp
  show ?case
    by (simp only: fold_simps sum_row_in_range [OF r] Cons.IH [OF rest])
       (simp add: rounded_sum_simps)
qed

lemma map_cells:
  "concat (map (\<lambda>y. map (\<lambda>x. f x y) xs) ys)
   = map (\<lambda>(x, y). f x y) (concat (map (\<lambda>y. map (\<lambda>x. (x, y)) xs) ys))"
  by (induction ys) (simp_all add: comp_def)

lemma byte_bounds: "0 \<le> (of_nat (unat (w :: 8 word)) :: rat) \<and> (of_nat (unat w) :: rat) \<le> 255"
proof -
  have "unat w < 256" using unsigned_less [of w] by simp
  then have "unat w \<le> 255" by simp
  then have "(of_nat (unat w) :: rat) \<le> of_nat 255" by (simp only: of_nat_le_iff)
  moreover have "0 \<le> (of_nat (unat w) :: rat)" by (rule of_nat_0_le_iff)
  ultimately show ?thesis by simp
qed



lemma length_cells:
  "length (concat (map (\<lambda>y. map (\<lambda>x. (x, y)) xs) ys)) = length ys * length xs"
  by (induction ys) simp_all

lemma set_cells:
  "((x, y) \<in> set (concat (map (\<lambda>y. map (\<lambda>x. (x, y)) xs) ys))) = (x \<in> set xs \<and> y \<in> set ys)"
  by (induction ys) auto

lemma length_cell_pixels:
  "length (cell_pixels d i) = (height d div rows d) * (width d div cols d)"
  by (simp add: cell_pixels_def Let_def length_cells)

lemma set_cell_pixels:
  "((x, y) \<in> set (cell_pixels d i)) =
     ((i mod cols d) * (width d div cols d) \<le> x
      \<and> x < (i mod cols d) * (width d div cols d) + width d div cols d
      \<and> (i div cols d) * (height d div rows d) \<le> y
      \<and> y < (i div cols d) * (height d div rows d) + height d div rows d)"
  unfolding cell_pixels_def Let_def set_cells by auto

lemma cell_in_buffer:
  assumes "0 < cols d" "i < cols d * rows d" "(x, y) \<in> set (cell_pixels d i)"
  shows "x < width d \<and> y < height d"
proof -
  let ?cw = "width d div cols d" and ?ch = "height d div rows d"
  have col: "Suc (i mod cols d) \<le> cols d"
    using assms(1) by (simp add: Suc_leI)
  have "i div cols d < rows d"
    using assms(2) by (simp add: less_mult_imp_div_less mult.commute)
  then have row: "Suc (i div cols d) \<le> rows d" by simp
  have "x < Suc (i mod cols d) * ?cw"
    using assms(3) by (simp add: set_cell_pixels)
  also have "\<dots> \<le> cols d * ?cw" using col by (rule mult_le_mono1)
  also have "\<dots> \<le> width d" by simp
  finally have x: "x < width d" .
  have "y < Suc (i div cols d) * ?ch"
    using assms(3) by (simp add: set_cell_pixels)
  also have "\<dots> \<le> rows d * ?ch" using row by (rule mult_le_mono1)
  also have "\<dots> \<le> height d" by simp
  finally have y: "y < height d" .
  from x y show ?thesis ..
qed

lemma index_in_range:
  assumes "x < w" "y < h"
  shows "(y * w + x) * 4 + 2 < 4 * (w * (h :: nat))"
proof -
  have "y * w + x < Suc y * w" using assms(1) by simp
  also have "\<dots> \<le> h * w" using assms(2) by (intro mult_le_mono1) simp
  finally have "y * w + x < w * h" by (simp add: mult.commute)
  then show ?thesis by simp
qed

lemma getRegionBrightness_rounded:
  assumes wf: "wf_image d imgd" and c: "0 < cols d" and i: "i < cols d * rows d"
  shows "getRegionBrightness d imgd i =
           (if cell_pixels d i = [] then Num 0
            else Num (to_double
                   (rounded_sum (map (\<lambda>(x, y). channel_mean imgd x y) (cell_pixels d i)) 0
                    / of_nat (length (cell_pixels d i)))))"
proof -
  let ?cw = "width d div cols d" and ?ch = "height d div rows d"
  let ?sx = "(i mod cols d) * ?cw" and ?sy = "(i div cols d) * ?ch"
  have rng: "\<forall>y\<in>set [?sy..<?sy + ?ch]. \<forall>x\<in>set [?sx..<?sx + ?cw].
               (y * img_width imgd + x) * 4 + 2 < length (data imgd)"
  proof (intro ballI)
    fix y x assume "y \<in> set [?sy..<?sy + ?ch]" "x \<in> set [?sx..<?sx + ?cw]"
    then have "(x, y) \<in> set (cell_pixels d i)" by (simp add: set_cell_pixels)
    then have "x < width d \<and> y < height d" using c i by (intro cell_in_buffer)
    then show "(y * img_width imgd + x) * 4 + 2 < length (data imgd)"
      using wf index_in_range [of x "width d" y "height d"] by (simp add: wf_image_def)
  qed
  have f: "fold (sum_row imgd ?sx ?cw) [?sy..<?sy + ?ch] (Num 0, 0)
           = (Num (rounded_sum (map (\<lambda>(x, y). channel_mean imgd x y) (cell_pixels d i)) 0),
              length (cell_pixels d i))"
  proof -
    have mc: "concat (map (\<lambda>y. map (\<lambda>x. channel_mean imgd x y) [?sx..<?sx + ?cw]) [?sy..<?sy + ?ch])
              = map (\<lambda>(x, y). channel_mean imgd x y) (cell_pixels d i)"
      unfolding cell_pixels_def Let_def by (rule map_cells)
    have len: "length [?sy..<?sy + ?ch] * ?cw = length (cell_pixels d i)"
      by (simp add: length_cell_pixels)
    show ?thesis
      by (simp only: fold_rows [OF rng] mc len add_0)
  qed
  have e: "(cell_pixels d i = []) = (length (cell_pixels d i) = 0)" by simp
  show ?thesis
    unfolding getRegionBrightness_def Let_def f
    by (simp only: e split: prod.splits) simp
qed



lemma to_double_whole:
  assumes "x \<in> \<int>" "0 \<le> x" "x \<le> 2 ^ 17"
  shows "to_double x = x"
proof -
  obtain k where k: "x = of_int k" using assms(1) by (auto elim: Ints_cases)
  have a: "\<bar>x\<bar> < 2 ^ 53" using assms(2,3) by simp
  have "to_double x \<le> of_int k" using a by (rule to_double_le_int) (simp add: k)
  moreover have "of_int k \<le> to_double x" using a by (rule to_double_ge_int) (simp add: k)
  ultimately show ?thesis by (simp add: k)
qed

lemma rounded_sum_exact:
  assumes "\<forall>m\<in>set ms. m \<in> \<int> \<and> 0 \<le> m \<and> m \<le> 255" "t \<in> \<int>" "0 \<le> t"
    "t \<le> 255 * of_nat j" "j + length ms \<le> 512"
  shows "rounded_sum ms t = t + sum_list ms"
  using assms
proof (induction ms arbitrary: t j)
  case Nil
  then show ?case by (simp add: rounded_sum_simps)
next
  case (Cons m ms)
  have m: "m \<in> \<int>" "0 \<le> m" "m \<le> 255" using Cons.prems(1) by simp_all
  have pm: "to_double m = m" using m by (intro to_double_whole) simp_all
  have "(of_nat (255 * (j + 1)) :: rat) \<le> of_nat (2 ^ 17)"
    using Cons.prems(5) by (simp only: of_nat_le_iff) simp
  then have j: "255 * of_nat (j + 1) \<le> (2::rat) ^ 17" by simp
  have s: "t + m \<in> \<int>" "0 \<le> t + m" using m Cons.prems(2,3) by simp_all
  have "t + m \<le> 255 * of_nat j + 255" using m(3) Cons.prems(4) by simp
  also have "\<dots> = 255 * of_nat (j + 1)" by simp
  finally have s3: "t + m \<le> 255 * of_nat (j + 1)" .
  have t1: "to_double (t + m) = t + m" using s s3 j by (intro to_double_whole) simp_all
  have "rounded_sum ms (t + m) = (t + m) + sum_list ms"
  proof (rule Cons.IH)
    show "\<forall>m\<in>set ms. m \<in> \<int> \<and> 0 \<le> m \<and> m \<le> 255" using Cons.prems(1) by simp
    show "t + m \<in> \<int>" "0 \<le> t + m" by (rule s)+
    show "t + m \<le> 255 * of_nat (j + 1)" by (rule s3)
    show "j + 1 + length ms \<le> 512" using Cons.prems(5) by simp
  qed
  then show ?case by (simp add: rounded_sum_simps pm t1)
qed

section \<open>The result of a call of detect\<close>


lemma detect_processed:
  assumes "wf_detector d" "video d" "ctx d" "HAVE_CURRENT_DATA \<le> readyState t"
    "capture t = Inr imgd"
  shows "detect t d = (filter (fires (now t) imgd d) [0..<cellCount d],
                       after_cells (now t) imgd d (cellCount d))"
  using assms by (simp add: detect_def detect_loop_prefix)

lemma after_cells_fields [simp]:
  "width (after_cells n imgd d k) = width d"
  "height (after_cells n imgd d k) = height d"
  "cols (after_cells n imgd d k) = cols d"
  "rows (after_cells n imgd d k) = rows d"
  "cellCount (after_cells n imgd d k) = cellCount d"
  "threshold (after_cells n imgd d k) = threshold d"
  "cooldownMs (after_cells n imgd d k) = cooldownMs d"
  "video (after_cells n imgd d k) = video d"
  "ctx (after_cells n imgd d k) = ctx d"
  "debugCtx (after_cells n imgd d k) = debugCtx d"
  by (simp_all add: after_cells_def)

lemma wf_after_cells: "wf_detector (after_cells n imgd d k)"
  by (simp add: wf_detector_def after_cells_def)

lemma nth_after_cells:
  assumes "i < cellCount d"
  shows "previousBrightness (after_cells n imgd d k) ! i
           = (if i < k then getRegionBrightness d imgd i else previousBrightness d ! i)"
    and "cooldowns (after_cells n imgd d k) ! i
           = (if i < k \<and> fires n imgd d i then n + cooldownMs d else cooldowns d ! i)"
  using assms by (simp_all add: after_cells_def)

lemma detect_cases:
  "detect t d = ([], d) \<or>
   (\<exists>imgd. capture t = Inr imgd \<and> video d \<and> ctx d \<and> HAVE_CURRENT_DATA \<le> readyState t
      \<and> detect t d = fold (detect_cell (now t) imgd) [0..<cellCount d] ([], d))"
  by (cases "capture t") (auto simp: detect_def)

text \<open>Every detector the class can produce is well formed.\<close>

lemma wf_detector_operations:
  "wf_detector (new_MotionDetector opts)"
  "wf_detector d \<Longrightarrow> wf_detector (init v c d)"
  "wf_detector d \<Longrightarrow> wf_detector (setThreshold x d)"
  "wf_detector d \<Longrightarrow> wf_detector (setCooldown x d)"
  "wf_detector d \<Longrightarrow> wf_detector (reset d)"
  by (simp_all add: wf_detector_def new_MotionDetector_def init_def setThreshold_def
        setCooldown_def reset_def Let_def)

lemma wf_detect:
  assumes "wf_detector d"
  shows "wf_detector (snd (detect t d))"
  using detect_cases [of t d] assms
  by (auto simp: detect_loop_prefix wf_after_cells)

lemma detect_config:
  assumes "wf_detector d"
  shows "cellCount (snd (detect t d)) = cellCount d"
    and "threshold (snd (detect t d)) = threshold d"
    and "cooldownMs (snd (detect t d)) = cooldownMs d"
    and "video (snd (detect t d)) = video d"
    and "ctx (snd (detect t d)) = ctx d"
  using detect_cases [of t d] assms
  by (auto simp: detect_loop_prefix)

section \<open>The trigger rule\<close>

text \<open>
  C1, as the code has it. On a pass of \<open>detect()\<close> that processes a frame, cell \<open>i\<close>
  is appended to the result if and only if the brightness delta
  \<open>|brightness - previousBrightness[i]|\<close> is strictly greater than the threshold and
  the clock reading is strictly greater than \<open>cooldowns[i]\<close>. A cell that triggers has
  its cooldown entry set to \<open>now + cooldownMs\<close>; one that does not keeps its entry. A
  delta equal to the threshold never triggers; a delta of threshold + 1 triggers when
  the cooldown has passed.
\<close>

theorem trigger_rule:
  assumes "wf_detector d" "video d" "ctx d" "HAVE_CURRENT_DATA \<le> readyState t"
    "capture t = Inr imgd" "i < cellCount d"
  shows "(i \<in> set (fst (detect t d)))
           = (js_gt (js_abs (js_sub (getRegionBrightness d imgd i) (previousBrightness d ! i)))
                    (Num (of_int (threshold d)))
              \<and> cooldowns d ! i < now t)
         \<and> (i \<in> set (fst (detect t d))
              \<longrightarrow> cooldowns (snd (detect t d)) ! i = now t + cooldownMs d)
         \<and> (i \<notin> set (fst (detect t d))
              \<longrightarrow> cooldowns (snd (detect t d)) ! i = cooldowns d ! i)
         \<and> (js_abs (js_sub (getRegionBrightness d imgd i) (previousBrightness d ! i))
               = Num (of_int (threshold d))
              \<longrightarrow> i \<notin> set (fst (detect t d)))
         \<and> (js_abs (js_sub (getRegionBrightness d imgd i) (previousBrightness d ! i))
               = Num (of_int (threshold d + 1)) \<and> cooldowns d ! i < now t
              \<longrightarrow> i \<in> set (fst (detect t d)))"
proof -
  have m: "(i \<in> set (fst (detect t d))) = fires (now t) imgd d i"
    using assms by (simp add: detect_processed)
  have c: "cooldowns (snd (detect t d)) ! i
             = (if fires (now t) imgd d i then now t + cooldownMs d else cooldowns d ! i)"
    using assms by (simp add: detect_processed nth_after_cells)
  show ?thesis
    unfolding m c by (simp add: fires_def)
qed


section \<open>Uniform frames\<close>

lemma nth_concat_replicate:
  assumes "k < n" "j < length xs"
  shows "concat (replicate n xs) ! (k * length xs + j) = xs ! j"
  using assms
proof (induction n arbitrary: k)
  case 0
  then show ?case by simp
next
  case (Suc n)
  show ?case
  proof (cases k)
    case 0
    then show ?thesis using Suc.prems by (simp add: nth_append)
  next
    case (Suc k')
    then have "k' < n" using Suc.prems by simp
    then have "concat (replicate n xs) ! (k' * length xs + j) = xs ! j"
      using Suc.prems by (intro Suc.IH)
    then show ?thesis using Suc by (simp add: nth_append)
  qed
qed

lemma channel_mean_gray:
  assumes "x < w" "y < h"
  shows "channel_mean (gray_frame w h v) x y = of_nat (unat v)"
proof -
  have "y * w + x < Suc y * w" using assms(1) by simp
  also have "\<dots> \<le> h * w" using assms(2) by (intro mult_le_mono1) simp
  finally have k: "y * w + x < w * h" by (simp add: mult.commute)
  have n: "concat (replicate (w * h) [v, v, v, 255]) ! ((y * w + x) * 4 + j) = [v, v, v, 255] ! j"
    if "j < 4" for j
  proof -
    have e: "(y * w + x) * 4 + j = (y * w + x) * length [v, v, v, 255] + j" by simp
    show ?thesis
      unfolding e using k that by (intro nth_concat_replicate) simp_all
  qed
  show ?thesis
    using n [of 0] n [of 1] n [of 2]
    by (simp add: channel_mean_def gray_frame_def Let_def)
qed

lemma sum_list_const:
  assumes "\<forall>p\<in>set ps. f p = (c :: rat)"
  shows "sum_list (map f ps) = of_nat (length ps) * c"
  using assms by (induction ps) (simp_all add: algebra_simps)

lemma wf_image_gray: "wf_image d (gray_frame (width d) (height d) v)"
  by (simp add: wf_image_def gray_frame_def length_concat sum_list_replicate)

lemma getRegionBrightness_gray:
  assumes c: "0 < cols d" and i: "i < cols d * rows d" and ne: "cell_pixels d i \<noteq> []"
    and small: "length (cell_pixels d i) \<le> 512"
  shows "getRegionBrightness d (gray_frame (width d) (height d) v) i = Num (of_nat (unat v))"
proof -
  let ?g = "gray_frame (width d) (height d) v"
  let ?f = "\<lambda>(x, y). channel_mean ?g x y"
  let ?n = "length (cell_pixels d i)"
  have all: "\<forall>p\<in>set (cell_pixels d i). ?f p = of_nat (unat v)"
  proof
    fix p assume p: "p \<in> set (cell_pixels d i)"
    obtain x y where xy: "p = (x, y)" by (cases p)
    have "x < width d \<and> y < height d" using c i p unfolding xy by (rule cell_in_buffer)
    then show "?f p = of_nat (unat v)"
      by (simp add: xy channel_mean_gray)
  qed
  then have s: "sum_list (map ?f (cell_pixels d i)) = of_nat ?n * of_nat (unat v)"
    by (rule sum_list_const)
  have "\<forall>m\<in>set (map ?f (cell_pixels d i)). m \<in> \<int> \<and> 0 \<le> m \<and> m \<le> 255"
  proof
    fix m assume "m \<in> set (map ?f (cell_pixels d i))"
    then have e: "m = of_nat (unat v)" using all by auto
    have lo: "0 \<le> (of_nat (unat v) :: rat)" and hi: "(of_nat (unat v) :: rat) \<le> 255"
      using byte_bounds [of v] by blast+
    show "m \<in> \<int> \<and> 0 \<le> m \<and> m \<le> 255"
      unfolding e by (intro conjI Ints_of_nat lo hi)
  qed
  then have "rounded_sum (map ?f (cell_pixels d i)) 0 = 0 + sum_list (map ?f (cell_pixels d i))"
    by (rule rounded_sum_exact [where j = 0]) (simp_all add: small)
  then have t: "rounded_sum (map ?f (cell_pixels d i)) 0 = of_nat ?n * of_nat (unat v)"
    by (simp add: s)
  have l: "(of_nat ?n :: rat) \<noteq> 0" using ne by simp
  have "unat v < 256" using unsigned_less [of v] by simp
  then have r: "to_double (of_nat (unat v)) = of_nat (unat v)"
    by (intro to_double_of_nat) simp
  have "getRegionBrightness d ?g i = Num (to_double (of_nat ?n * of_nat (unat v) / of_nat ?n))"
    using ne by (simp only: getRegionBrightness_rounded [OF wf_image_gray c i] t if_False)
  also have "of_nat ?n * of_nat (unat v) / of_nat ?n = (of_nat (unat v) :: rat)"
    using l by simp
  finally show ?thesis by (simp only: r)
qed

lemma default_detector_fields:
  "width default_detector = 64" "height default_detector = 48"
  "cols default_detector = 3" "rows default_detector = 3"
  "cellCount default_detector = 9"
  "threshold default_detector = 20" "cooldownMs default_detector = 250"
  "previousBrightness default_detector = replicate 9 (Num 0)"
  "cooldowns default_detector = replicate 9 0"
  "video default_detector" "ctx default_detector" "\<not> debugCtx default_detector"
  by (simp_all add: default_detector_def init_def new_MotionDetector_def no_options_def
        or_default_def Let_def)

lemma wf_default_detector: "wf_detector default_detector"
  by (simp add: wf_detector_def default_detector_fields)


section \<open>A first bright frame, then a dark one\<close>

lemma frame_at_fields:
  "now (frame_at ms v) = ms" "readyState (frame_at ms v) = 4"
  "capture (frame_at ms v) = Inr (gray_frame 64 48 v)"
  "HAVE_CURRENT_DATA \<le> 4"
  by (simp_all add: frame_at_def HAVE_CURRENT_DATA_def)

lemma default_grid_gray:
  assumes "width d = 64" "height d = 48" "cols d = 3" "rows d = 3" "i < 9"
  shows "getRegionBrightness d (gray_frame 64 48 v) i = Num (of_nat (unat v))"
proof -
  have len: "length (cell_pixels d i) = 336"
    by (simp add: length_cell_pixels assms)
  then have ne: "cell_pixels d i \<noteq> []" by auto
  have "getRegionBrightness d (gray_frame (width d) (height d) v) i = Num (of_nat (unat v))"
    using assms ne len by (intro getRegionBrightness_gray) simp_all
  then show ?thesis by (simp add: assms)
qed

lemma first_frame_state:
  defines "d1 \<equiv> snd (detect (frame_at 1000 200) default_detector)"
  shows "wf_detector d1" "video d1" "ctx d1" "cellCount d1 = 9" "threshold d1 = 20"
    "cooldownMs d1 = 250" "width d1 = 64" "height d1 = 48" "cols d1 = 3" "rows d1 = 3"
    "i < 9 \<Longrightarrow> previousBrightness d1 ! i = Num 200"
    "i < 9 \<Longrightarrow> cooldowns d1 ! i = 1250"
    "fst (detect (frame_at 1000 200) default_detector) = [0..<9]"
proof -
  let ?t = "frame_at 1000 200"
  let ?g = "gray_frame 64 48 200"
  have p: "detect ?t default_detector
           = (filter (fires 1000 ?g default_detector) [0..<9], after_cells 1000 ?g default_detector 9)"
    using detect_processed [of default_detector ?t ?g]
    by (simp add: wf_default_detector default_detector_fields frame_at_fields)
  have f: "fires 1000 ?g default_detector j" if "j < 9" for j
    using that
    by (simp add: fires_def default_grid_gray default_detector_fields)
  then have fl: "filter (fires 1000 ?g default_detector) [0..<9] = [0..<9]"
    by (intro filter_True) simp
  show "wf_detector d1" "video d1" "ctx d1" "cellCount d1 = 9" "threshold d1 = 20"
    "cooldownMs d1 = 250" "width d1 = 64" "height d1 = 48" "cols d1 = 3" "rows d1 = 3"
    unfolding d1_def p by (simp_all add: wf_after_cells default_detector_fields)
  show "i < 9 \<Longrightarrow> previousBrightness d1 ! i = Num 200"
    unfolding d1_def p
    by (simp add: nth_after_cells default_detector_fields default_grid_gray)
  show "i < 9 \<Longrightarrow> cooldowns d1 ! i = 1250"
    unfolding d1_def p
    by (simp add: nth_after_cells default_detector_fields f)
  show "fst (detect (frame_at 1000 200) default_detector) = [0..<9]"
    unfolding p by (simp only: fst_conv fl)
qed

theorem trigger_rule_witness:
  "wf_detector default_detector \<and> video default_detector \<and> ctx default_detector
   \<and> HAVE_CURRENT_DATA \<le> readyState (frame_at 1000 200)
   \<and> capture (frame_at 1000 200) = Inr (gray_frame 64 48 200)
   \<and> 4 < cellCount default_detector
   \<and> 4 \<in> set (fst (detect (frame_at 1000 200) default_detector))
   \<and> cooldowns (snd (detect (frame_at 1000 200) default_detector)) ! 4 = 1250"
  using trigger_rule [of default_detector "frame_at 1000 200" "gray_frame 64 48 200" 4]
  by (simp add: wf_default_detector default_detector_fields frame_at_fields
        default_grid_gray)

text \<open>
  C1 as stated lets a cell trigger when the clock reading equals \<open>cooldownUntil\<close>. The
  default detector sees a uniformly bright frame (200) at clock 1000: every cell
  triggers and its cooldown entry becomes 1250. A dark frame (0) read at clock 1250
  has delta 200 > 20 in cell 4 and 1250 \<ge> 1250, yet cell 4 is not in the result.
\<close>

theorem trigger_at_cooldown_end_counterexample:
  "video (snd (detect (frame_at 1000 200) default_detector))
   \<and> ctx (snd (detect (frame_at 1000 200) default_detector))
   \<and> HAVE_CURRENT_DATA \<le> readyState (frame_at 1250 0)
   \<and> capture (frame_at 1250 0) = Inr (gray_frame 64 48 0)
   \<and> 4 < cellCount (snd (detect (frame_at 1000 200) default_detector))
   \<and> js_gt (js_abs (js_sub
              (getRegionBrightness (snd (detect (frame_at 1000 200) default_detector))
                 (gray_frame 64 48 0) 4)
              (previousBrightness (snd (detect (frame_at 1000 200) default_detector)) ! 4)))
            (Num (of_int (threshold (snd (detect (frame_at 1000 200) default_detector)))))
   \<and> cooldowns (snd (detect (frame_at 1000 200) default_detector)) ! 4 \<le> now (frame_at 1250 0)
   \<and> 4 \<notin> set (fst (detect (frame_at 1250 0) (snd (detect (frame_at 1000 200) default_detector))))"
proof -
  let ?d1 = "snd (detect (frame_at 1000 200) default_detector)"
  let ?g = "gray_frame 64 48 0"
  have p: "detect (frame_at 1250 0) ?d1
           = (filter (fires 1250 ?g ?d1) [0..<9], after_cells 1250 ?g ?d1 9)"
    using detect_processed [of ?d1 "frame_at 1250 0" ?g]
    by (simp add: first_frame_state frame_at_fields)
  have nf: "\<not> fires 1250 ?g ?d1 4"
    by (simp add: fires_def first_frame_state)
  show ?thesis
    unfolding p
    by (simp add: first_frame_state default_grid_gray frame_at_fields nf)
qed

section \<open>Configuration clamps\<close>

text \<open>
  C8. For every integer \<open>v\<close>, \<open>setThreshold(v)\<close> leaves the threshold at \<open>v\<close> clamped to
  \<open>[1,100]\<close> and \<open>setCooldown(v)\<close> leaves the cooldown at \<open>v\<close> clamped to \<open>[50,1000]\<close>: the
  result lies in the interval, equals \<open>v\<close> when \<open>v\<close> lies in the interval, and is the
  nearer bound otherwise; no other field changes. In particular \<open>setThreshold(0)\<close>
  gives 1, \<open>setThreshold(1000)\<close> gives 100, \<open>setCooldown(10)\<close> gives 50 and
  \<open>setCooldown(5000)\<close> gives 1000.
\<close>

theorem setters_clamp:
  "threshold (setThreshold v d) = (if v < 1 then 1 else if 100 < v then 100 else v)
   \<and> cooldownMs (setCooldown v d) = (if v < 50 then 50 else if 1000 < v then 1000 else v)
   \<and> setThreshold v d = d\<lparr>threshold := threshold (setThreshold v d)\<rparr>
   \<and> setCooldown v d = d\<lparr>cooldownMs := cooldownMs (setCooldown v d)\<rparr>
   \<and> threshold (setThreshold 0 d) = 1
   \<and> threshold (setThreshold 1000 d) = 100
   \<and> cooldownMs (setCooldown 10 d) = 50
   \<and> cooldownMs (setCooldown 5000 d) = 1000"
  by (simp add: setThreshold_def setCooldown_def)

section \<open>Brightness tracking\<close>

text \<open>
  C5. On every pass of \<open>detect()\<close> that processes a frame, \<open>previousBrightness[i]\<close>
  becomes the brightness just computed for cell \<open>i\<close>, for every cell of the grid:
  whether or not the cell triggered, and whether or not its cooldown was still running
  (neither appears among the hypotheses).
\<close>

theorem brightness_tracking:
  assumes "wf_detector d" "video d" "ctx d" "HAVE_CURRENT_DATA \<le> readyState t"
    "capture t = Inr imgd"
  shows "length (previousBrightness (snd (detect t d))) = cellCount d
         \<and> (\<forall>i<cellCount d.
               previousBrightness (snd (detect t d)) ! i = getRegionBrightness d imgd i)"
  using assms by (simp add: detect_processed nth_after_cells) (simp add: after_cells_def)

text \<open>
  The dark frame arrives at clock 1100, inside the cooldown window of every cell: no
  cell triggers, and the tracked brightness of cell 4 still moves from 200 to 0.
\<close>

theorem brightness_tracking_witness:
  "wf_detector (snd (detect (frame_at 1000 200) default_detector))
   \<and> capture (frame_at 1100 0) = Inr (gray_frame 64 48 0)
   \<and> fst (detect (frame_at 1100 0) (snd (detect (frame_at 1000 200) default_detector))) = []
   \<and> previousBrightness (snd (detect (frame_at 1000 200) default_detector)) ! 4 = Num 200
   \<and> previousBrightness
        (snd (detect (frame_at 1100 0) (snd (detect (frame_at 1000 200) default_detector)))) ! 4
       = Num 0"
proof -
  let ?d1 = "snd (detect (frame_at 1000 200) default_detector)"
  let ?g = "gray_frame 64 48 0"
  have nf: "\<not> fires 1100 ?g ?d1 j" if "j < 9" for j
    using that by (simp add: fires_def first_frame_state)
  have "filter (fires 1100 ?g ?d1) [0..<9] = []"
    using nf by (simp add: filter_empty_conv)
  then have e: "fst (detect (frame_at 1100 0) ?d1) = []"
    using detect_processed [of ?d1 "frame_at 1100 0" ?g]
    by (simp add: first_frame_state frame_at_fields)
  show ?thesis
    using brightness_tracking [of ?d1 "frame_at 1100 0" ?g] e
    by (simp add: first_frame_state frame_at_fields default_grid_gray)
qed

section \<open>Frames that cannot be read\<close>

text \<open>
  C6. When \<open>detect()\<close> is called with no frame source or no canvas context bound, or
  the video has no current frame (\<open>readyState < HAVE_CURRENT_DATA\<close>), or drawing or
  reading the frame throws, the call returns the empty array (the exception does not
  reach the caller) and the detector is left exactly as it was: in particular
  \<open>previousBrightness\<close> and \<open>cooldowns\<close> are unchanged for every cell.
\<close>

theorem detect_guard:
  assumes "\<not> video d \<or> \<not> ctx d \<or> readyState t < HAVE_CURRENT_DATA \<or> (\<exists>e. capture t = Inl e)"
  shows "detect t d = ([], d)"
  using assms by (auto simp: detect_def)

theorem detect_guard_witness:
  "detect (frame_at 1000 200) (new_MotionDetector no_options) = ([], new_MotionDetector no_options)
   \<and> detect ((frame_at 1000 200)\<lparr>readyState := 1\<rparr>) default_detector = ([], default_detector)
   \<and> detect ((frame_at 1000 200)\<lparr>capture := Inl InvalidStateError\<rparr>) default_detector
       = ([], default_detector)"
proof -
  have a: "\<not> video (new_MotionDetector no_options)"
    by (simp add: new_MotionDetector_def Let_def)
  have b: "readyState ((frame_at 1000 200)\<lparr>readyState := 1\<rparr>) < HAVE_CURRENT_DATA"
    by (simp add: HAVE_CURRENT_DATA_def)
  have c: "\<exists>e. capture ((frame_at 1000 200)\<lparr>capture := Inl InvalidStateError\<rparr>) = Inl e"
    by simp
  show ?thesis
    using detect_guard [of "new_MotionDetector no_options" "frame_at 1000 200"] a
      detect_guard [of default_detector "(frame_at 1000 200)\<lparr>readyState := 1\<rparr>"] b
      detect_guard [of default_detector "(frame_at 1000 200)\<lparr>capture := Inl InvalidStateError\<rparr>"] c
    by blast
qed

section \<open>Order of the result\<close>

lemma fst_detect_cell:
  "fst (detect_cell n imgd i (triggered, d)) = triggered
   \<or> fst (detect_cell n imgd i (triggered, d)) = triggered @ [i]"
  by (simp add: detect_cell_def Let_def)

lemma fold_detect_cell_order:
  "sorted_wrt (<) (fst (fold (detect_cell n imgd) [0..<k] ([], d)))
   \<and> set (fst (fold (detect_cell n imgd) [0..<k] ([], d))) \<subseteq> {0..<k}"
proof (induction k)
  case 0
  then show ?case by simp
next
  case (Suc k)
  obtain ys d' where f: "fold (detect_cell n imgd) [0..<k] ([], d) = (ys, d')"
    by (cases "fold (detect_cell n imgd) [0..<k] ([], d)")
  have ys: "sorted_wrt (<) ys" "set ys \<subseteq> {0..<k}"
    using Suc.IH by (simp_all add: f)
  have s: "sorted_wrt (<) (ys @ [k])"
    using ys by (auto simp: sorted_wrt_append)
  have "fst (detect_cell n imgd k (ys, d')) = ys \<or> fst (detect_cell n imgd k (ys, d')) = ys @ [k]"
    by (rule fst_detect_cell)
  then show ?case
    using ys s by (auto simp: f)
qed

text \<open>
  C10. For every call, the array returned by \<open>detect()\<close> is strictly ascending, hence
  free of duplicates, and each of its elements is a cell index below \<open>cellCount\<close>
  (9 for the 3 \<times> 3 grid, so an index in 0..8).
\<close>

theorem detect_ascending:
  "sorted_wrt (<) (fst (detect t d)) \<and> distinct (fst (detect t d))
   \<and> set (fst (detect t d)) \<subseteq> {0..<cellCount d}"
proof -
  have a: "sorted_wrt (<) (fst (detect t d)) \<and> set (fst (detect t d)) \<subseteq> {0..<cellCount d}"
  proof (cases "detect t d = ([], d)")
    case True
    then show ?thesis by simp
  next
    case False
    then obtain imgd where
      "detect t d = fold (detect_cell (now t) imgd) [0..<cellCount d] ([], d)"
      using detect_cases [of t d] by blast
    then show ?thesis by (simp only: fold_detect_cell_order)
  qed
  have "distinct xs" if "sorted_wrt (<) xs" for xs :: "nat list"
    using that by (simp add: strict_sorted_iff)
  with a show ?thesis by blast
qed

theorem detect_ascending_witness:
  "fst (detect (frame_at 1000 200) default_detector) = [0, 1, 2, 3, 4, 5, 6, 7, 8]
   \<and> cellCount default_detector = 9
   \<and> sorted_wrt (<) (fst (detect (frame_at 1000 200) default_detector))
   \<and> set (fst (detect (frame_at 1000 200) default_detector)) \<subseteq> {0..<9}"
proof -
  have "[0..<9] = [0, 1, 2, 3, 4, 5, 6, 7, 8 :: nat]" by (simp add: upt_rec)
  then show ?thesis
    using detect_ascending [of "frame_at 1000 200" default_detector]
    by (simp only: first_frame_state default_detector_fields) 
qed

section \<open>Cooldown\<close>

lemma detect_during_cooldown:
  assumes "wf_detector d" "i < cellCount d" "now t \<le> cooldowns d ! i"
  shows "i \<notin> set (fst (detect t d)) \<and> cooldowns (snd (detect t d)) ! i = cooldowns d ! i"
proof (cases "detect t d = ([], d)")
  case True
  then show ?thesis by simp
next
  case False
  then obtain imgd where "detect t d = fold (detect_cell (now t) imgd) [0..<cellCount d] ([], d)"
    using detect_cases [of t d] by blast
  then have p: "detect t d = (filter (fires (now t) imgd d) [0..<cellCount d],
                              after_cells (now t) imgd d (cellCount d))"
    using assms(1) by (simp add: detect_loop_prefix)
  have "\<not> fires (now t) imgd d i" using assms(3) by (simp add: fires_def)
  then show ?thesis using assms(2) by (simp add: p nth_after_cells)
qed

lemma run_during_cooldown:
  assumes "wf_detector d" "i < cellCount d" "\<forall>t\<in>set ts. now t \<le> cooldowns d ! i"
  shows "\<forall>r\<in>set (run d ts). i \<notin> set r"
  using assms
proof (induction ts arbitrary: d)
  case Nil
  then show ?case by simp
next
  case (Cons t ts)
  obtain r d' where s: "detect t d = (r, d')" by (cases "detect t d")
  have now: "now t \<le> cooldowns d ! i" using Cons.prems(3) by simp
  have step: "i \<notin> set r \<and> cooldowns d' ! i = cooldowns d ! i"
    using detect_during_cooldown [OF Cons.prems(1,2) now] by (simp add: s)
  have wf: "wf_detector d'" using wf_detect [OF Cons.prems(1), of t] by (simp add: s)
  have cc: "i < cellCount d'" using detect_config(1) [OF Cons.prems(1), of t] Cons.prems(2) by (simp add: s)
  have rest: "\<forall>t\<in>set ts. now t \<le> cooldowns d' ! i" using Cons.prems(3) step by simp
  have "\<forall>r\<in>set (run d' ts). i \<notin> set r" using wf cc rest by (rule Cons.IH)
  then show ?case using step by (simp add: s)
qed

lemma triggered_cell:
  assumes "wf_detector d" "i \<in> set (fst (detect t d))"
  shows "i < cellCount d \<and> cooldowns (snd (detect t d)) ! i = now t + cooldownMs d"
proof -
  have "detect t d \<noteq> ([], d)" using assms(2) by auto
  then obtain imgd where "detect t d = fold (detect_cell (now t) imgd) [0..<cellCount d] ([], d)"
    using detect_cases [of t d] by blast
  then have p: "detect t d = (filter (fires (now t) imgd d) [0..<cellCount d],
                              after_cells (now t) imgd d (cellCount d))"
    using assms(1) by (simp add: detect_loop_prefix)
  have "i < cellCount d \<and> fires (now t) imgd d i" using assms(2) by (simp add: p)
  then show ?thesis by (simp add: p nth_after_cells)
qed

text \<open>
  C3. If cell \<open>i\<close> triggers in a call of \<open>detect()\<close> at clock reading \<open>T\<close> while the
  cooldown is \<open>C = cooldownMs\<close>, then in any sequence of further calls of \<open>detect()\<close>
  whose clock readings are all below \<open>T + C\<close>, no call returns cell \<open>i\<close>: whatever the
  frames are, hence also when the brightness delta exceeds the threshold every time.
\<close>

theorem cooldown_enforced:
  assumes "wf_detector d" "i \<in> set (fst (detect t d))"
    "\<forall>t'\<in>set ts. now t' < now t + cooldownMs d"
  shows "\<forall>r\<in>set (run (snd (detect t d)) ts). i \<notin> set r"
proof -
  let ?d1 = "snd (detect t d)"
  have c: "i < cellCount d" "cooldowns ?d1 ! i = now t + cooldownMs d"
    using triggered_cell [OF assms(1,2)] by simp_all
  have wf: "wf_detector ?d1" using assms(1) by (rule wf_detect)
  have cc: "i < cellCount ?d1" using c(1) detect_config(1) [OF assms(1), of t] by simp
  have "\<forall>t'\<in>set ts. now t' \<le> cooldowns ?d1 ! i" using assms(3) c(2) by auto
  with wf cc show ?thesis by (rule run_during_cooldown)
qed


text \<open>
  After the bright frame at clock 1000 the default detector meets a dark frame at 1100
  and a bright one at 1249, each with delta 200 > 20 in cell 4, both before
  1000 + 250: cell 4 stays silent in both calls.
\<close>

theorem cooldown_enforced_witness:
  "wf_detector default_detector
   \<and> 4 \<in> set (fst (detect (frame_at 1000 200) default_detector))
   \<and> now (frame_at 1100 0) < now (frame_at 1000 200) + cooldownMs default_detector
   \<and> now (frame_at 1249 200) < now (frame_at 1000 200) + cooldownMs default_detector
   \<and> 4 \<notin> set (concat (run (snd (detect (frame_at 1000 200) default_detector))
                            [frame_at 1100 0, frame_at 1249 200]))"
proof -
  have m: "4 \<in> set (fst (detect (frame_at 1000 200) default_detector))"
    by (simp add: first_frame_state)
  have b: "\<forall>t'\<in>set [frame_at 1100 0, frame_at 1249 200].
             now t' < now (frame_at 1000 200) + cooldownMs default_detector"
    by (simp add: frame_at_fields default_detector_fields)
  have "\<forall>r\<in>set (run (snd (detect (frame_at 1000 200) default_detector))
                     [frame_at 1100 0, frame_at 1249 200]). 4 \<notin> set r"
    using wf_default_detector m b by (rule cooldown_enforced)
  then have "4 \<notin> set (concat (run (snd (detect (frame_at 1000 200) default_detector))
                            [frame_at 1100 0, frame_at 1249 200]))"
    by (simp only: set_concat UN_iff) blast
  then show ?thesis
    using m by (simp add: wf_default_detector frame_at_fields default_detector_fields)
qed

section \<open>Determinism\<close>

lemma getRegionBrightness_debug [simp]:
  "getRegionBrightness (d\<lparr>debugCtx := b\<rparr>) = getRegionBrightness d"
  by (simp add: getRegionBrightness_def fun_eq_iff)

lemma detect_cell_debug:
  "detect_cell n imgd i (triggered, d\<lparr>debugCtx := b\<rparr>)
   = (fst (detect_cell n imgd i (triggered, d)), (snd (detect_cell n imgd i (triggered, d)))\<lparr>debugCtx := b\<rparr>)"
  by (simp add: detect_cell_def Let_def)

lemma fold_detect_cell_debug:
  "fold (detect_cell n imgd) xs (triggered, d\<lparr>debugCtx := b\<rparr>)
   = (fst (fold (detect_cell n imgd) xs (triggered, d)),
      (snd (fold (detect_cell n imgd) xs (triggered, d)))\<lparr>debugCtx := b\<rparr>)"
proof (induction xs arbitrary: triggered d)
  case Nil
  then show ?case by simp
next
  case (Cons x xs)
  obtain tr' d' where s: "detect_cell n imgd x (triggered, d) = (tr', d')"
    by (cases "detect_cell n imgd x (triggered, d)")
  show ?case
    by (simp add: detect_cell_debug s Cons.IH)
qed

lemma detect_debug:
  "detect t (d\<lparr>debugCtx := b\<rparr>) = (fst (detect t d), (snd (detect t d))\<lparr>debugCtx := b\<rparr>)"
  by (cases "capture t") (simp_all add: detect_def fold_detect_cell_debug)

lemma run_debug: "run (d\<lparr>debugCtx := b\<rparr>) ts = run d ts"
proof (induction ts arbitrary: d)
  case Nil
  then show ?case by simp
next
  case (Cons t ts)
  obtain r d' where s: "detect t d = (r, d')" by (cases "detect t d")
  show ?case by (simp add: detect_debug s Cons.IH)
qed

lemma detect_same_inputs:
  assumes "same_inputs t1 t2"
  shows "detect t1 d = detect t2 d"
  using assms
  by (cases "capture t1"; cases "capture t2") (auto simp: same_inputs_def detect_def)

lemma run_same_inputs:
  assumes "list_all2 same_inputs ts1 ts2"
  shows "run d ts1 = run d ts2"
  using assms
proof (induction ts1 ts2 arbitrary: d rule: list_all2_induct)
  case Nil
  then show ?case by simp
next
  case (Cons t1 ts1 t2 ts2)
  obtain r d' where s: "detect t2 d = (r, d')" by (cases "detect t2 d")
  show ?case
    by (simp add: detect_same_inputs [OF Cons.hyps(1)] s Cons.IH)
qed

text \<open>
  C9, as the code has it. \<open>detect()\<close> reads the clock, so the frames alone do not fix
  its results. Two runs that start from the same per-cell state with the same
  configuration, and whose calls read the same clock values and the same frames (or
  fail to read a frame at the same calls), return the same sequence of trigger arrays.
\<close>

theorem detect_deterministic:
  assumes "same_detection_state d1 d2" "list_all2 same_inputs ts1 ts2"
  shows "run d1 ts1 = run d2 ts2"
proof -
  have "d2 = d1\<lparr>debugCtx := debugCtx d2\<rparr>"
    using assms(1) by (intro motionDetector.equality) (simp_all add: same_detection_state_def)
  then have "run d2 ts2 = run d1 ts2" using run_debug [where d = d1 and b = "debugCtx d2" and ts = ts2] by simp
  then show ?thesis using run_same_inputs [OF assms(2), of d1] by simp
qed


lemma second_frame_results:
  "fst (detect (frame_at 1100 0) (snd (detect (frame_at 1000 200) default_detector))) = []"
  "fst (detect (frame_at 2000 0) (snd (detect (frame_at 1000 200) default_detector))) = [0..<9]"
proof -
  let ?d1 = "snd (detect (frame_at 1000 200) default_detector)"
  let ?g = "gray_frame 64 48 0"
  have p: "detect (frame_at ms 0) ?d1
           = (filter (fires ms ?g ?d1) [0..<9], after_cells ms ?g ?d1 9)" for ms
    using detect_processed [of ?d1 "frame_at ms 0" ?g]
    by (simp add: first_frame_state frame_at_fields)
  have nf: "\<not> fires 1100 ?g ?d1 j" if "j < 9" for j
    using that by (simp add: fires_def first_frame_state)
  have f: "fires 2000 ?g ?d1 j" if "j < 9" for j
    using that by (simp add: fires_def first_frame_state default_grid_gray)
  have "filter (fires 1100 ?g ?d1) [0..<9] = []"
    using nf by (simp add: filter_empty_conv)
  then show "fst (detect (frame_at 1100 0) ?d1) = []"
    by (simp only: p fst_conv)
  have "filter (fires 2000 ?g ?d1) [0..<9] = [0..<9]"
    using f by (intro filter_True) simp
  then show "fst (detect (frame_at 2000 0) ?d1) = [0..<9]"
    by (simp only: p fst_conv)
qed

lemma run_two:
  "run d [t1, t2] = [fst (detect t1 d), fst (detect t2 (snd (detect t1 d)))]"
  by (simp add: split_beta)

theorem detect_deterministic_witness:
  "same_detection_state default_detector (init True True (new_MotionDetector no_options))
   \<and> list_all2 same_inputs [frame_at 1000 200, frame_at 1100 0]
         [(frame_at 1000 200)\<lparr>readyState := 2\<rparr>, (frame_at 1100 0)\<lparr>readyState := 3\<rparr>]
   \<and> run default_detector [frame_at 1000 200, frame_at 1100 0]
       = run (init True True (new_MotionDetector no_options))
           [(frame_at 1000 200)\<lparr>readyState := 2\<rparr>, (frame_at 1100 0)\<lparr>readyState := 3\<rparr>]"
proof -
  have s: "same_detection_state default_detector (init True True (new_MotionDetector no_options))"
    by (simp add: same_detection_state_def default_detector_def init_def Let_def)
  have i: "list_all2 same_inputs [frame_at 1000 200, frame_at 1100 0]
         [(frame_at 1000 200)\<lparr>readyState := 2\<rparr>, (frame_at 1100 0)\<lparr>readyState := 3\<rparr>]"
    by (simp add: same_inputs_def frame_at_fields HAVE_CURRENT_DATA_def)
  show ?thesis
    using detect_deterministic [OF s i] s i by simp
qed

text \<open>
  C9 as stated fixes the frames and the configuration only. The default detector sees
  a bright frame, then a dark one. In one run the calls happen at clock readings 1000
  and 1100, in the other at 1000 and 2000: the second call returns no cell in the first
  run and all nine cells in the second.
\<close>

theorem same_frames_other_clock_counterexample:
  "map capture [frame_at 1000 200, frame_at 1100 0] = map capture [frame_at 1000 200, frame_at 2000 0]
   \<and> map readyState [frame_at 1000 200, frame_at 1100 0]
       = map readyState [frame_at 1000 200, frame_at 2000 0]
   \<and> run default_detector [frame_at 1000 200, frame_at 1100 0] = [[0..<9], []]
   \<and> run default_detector [frame_at 1000 200, frame_at 2000 0] = [[0..<9], [0..<9]]
   \<and> run default_detector [frame_at 1000 200, frame_at 1100 0]
       \<noteq> run default_detector [frame_at 1000 200, frame_at 2000 0]"
proof -
  have a: "run default_detector [frame_at 1000 200, frame_at 1100 0] = [[0..<9], []]"
    by (simp only: run_two first_frame_state second_frame_results)
  have b: "run default_detector [frame_at 1000 200, frame_at 2000 0] = [[0..<9], [0..<9]]"
    by (simp only: run_two first_frame_state second_frame_results)
  have c: "[] \<noteq> [0..<9::nat]" by (simp add: upt_rec)
  show ?thesis
    unfolding a b using c by (simp add: frame_at_fields)
qed

section \<open>The cells of the grid\<close>















section \<open>play\<close>

text \<open>
  C7, as the code has it. \<open>play\<close> is a total function of the name and the state: no
  branch raises. While \<open>audioContext\<close> is null, that is before \<open>init()\<close> has been called
  and after \<open>dispose()\<close>, a call has no effect at all, whatever the name. When a context
  exists, a name outside the nine voices starts no source: the call resumes a suspended
  context and writes one warning.
\<close>

theorem play_guarded:
  "(audioContext s = None \<longrightarrow> play soundName s = [])
   \<and> play soundName new_SynthDrums = []
   \<and> play soundName (snd (dispose s)) = []
   \<and> (soundName \<notin> set voices \<longrightarrow> filter is_Start (play soundName s) = [])
   \<and> (soundName \<notin> set voices \<and> audioContext s = Some st \<longrightarrow>
        play soundName s
          = (if st = Suspended then [Resume] else []) @ [Warn (''Unknown sound: '' @ soundName)])"
proof -
  have a: "audioContext s = None \<longrightarrow> play soundName s = []"
    by (simp add: play_def)
  have b: "play soundName new_SynthDrums = []"
    by (simp add: play_def new_SynthDrums_def)
  have c: "play soundName (snd (dispose s)) = []"
    by (cases "audioContext s") (simp_all add: play_def dispose_def)
  have e: "soundName \<notin> set voices \<and> audioContext s = Some st \<longrightarrow>
        play soundName s
          = (if st = Suspended then [Resume] else []) @ [Warn (''Unknown sound: '' @ soundName)]"
    by (simp add: play_def voices_def)
  have d: "soundName \<notin> set voices \<longrightarrow> filter is_Start (play soundName s) = []"
    by (cases "audioContext s") (simp_all add: play_def voices_def)
  from a b c d e show ?thesis by blast
qed

theorem play_guarded_witness:
  "audioContext new_SynthDrums = None
   \<and> ''cowbell'' \<notin> set voices
   \<and> audioContext (fst (SynthDrums_init Running new_SynthDrums)) = Some Running
   \<and> play ''kick'' new_SynthDrums = []
   \<and> play ''kick'' (snd (dispose (fst (SynthDrums_init Running new_SynthDrums)))) = []
   \<and> play ''cowbell'' (fst (SynthDrums_init Running new_SynthDrums))
       = [Warn ''Unknown sound: cowbell'']"
proof -
  have n: "audioContext new_SynthDrums = None" by (simp add: new_SynthDrums_def)
  have v: "''cowbell'' \<notin> set voices" by (simp add: voices_def)
  have r: "audioContext (fst (SynthDrums_init Running new_SynthDrums)) = Some Running"
    by (simp add: SynthDrums_init_def)
  show ?thesis
    using play_guarded [of new_SynthDrums "''kick''"]
      play_guarded [of "fst (SynthDrums_init Running new_SynthDrums)" "''kick''"]
      play_guarded [of "fst (SynthDrums_init Running new_SynthDrums)" "''cowbell''" Running]
      n v r
    by simp
qed

text \<open>
  C7 as stated makes every call before \<open>init()\<close> has completed a no-op. \<open>init()\<close> stores
  the context before it awaits \<open>resume()\<close>: on a platform whose fresh context is
  suspended, a call of \<open>play('kick')\<close> made while \<open>init()\<close> is still pending passes the
  guard, asks for a resume and starts the kick oscillator.
\<close>

theorem play_while_init_pending_counterexample:
  "snd (SynthDrums_init Suspended new_SynthDrums)
   \<and> play ''kick'' (fst (SynthDrums_init Suspended new_SynthDrums))
       = [Resume, Start \<lparr>src = Oscillator Sine 150 40, filters = [], peak = 1,
                         start_ms = 0, stop_ms = 400\<rparr>]
   \<and> play ''kick'' (fst (SynthDrums_init Suspended new_SynthDrums)) \<noteq> []"
  by (simp add: SynthDrums_init_def new_SynthDrums_def play_def playKick_def)

section \<open>Stretching and cropping\<close>

text \<open>
  C2. The claim asks for a mode of \<open>detect()\<close> that centre-crops the source frame to the
  aspect ratio of the grid. The call of \<open>drawImage\<close> in \<open>detect()\<close> names no source
  rectangle, for any detector: the whole frame is sampled and stretched. For a
  1920 \<times> 1080 camera and the 64 \<times> 48 buffer the sampled region is the full frame, where
  the centre crop is the 1440 \<times> 1080 region starting at column 240.
\<close>

theorem detect_stretches_whole_frame:
  "source_rect videoWidth videoHeight (detect_drawImage d) = (0, 0, of_nat videoWidth, of_nat videoHeight)
   \<and> source_rect 1920 1080 (detect_drawImage default_detector) = (0, 0, 1920, 1080)
   \<and> cover_crop 1920 1080 (width default_detector) (height default_detector) = (240, 0, 1440, 1080)
   \<and> source_rect 1920 1080 (detect_drawImage default_detector)
       \<noteq> cover_crop 1920 1080 (width default_detector) (height default_detector)"
  by (simp add: detect_drawImage_def cover_crop_def default_detector_fields Let_def)

end
